theory Spec2Isabelle
  imports Complex_Main "HOL-Library.Log_Nat" "HOL-Library.While_Combinator"
begin

section \<open>Binary search (src/binary_search.py)\<close>

text \<open>
  The source is one static method, \<^verbatim>\<open>Search.binary_search_iterative(sorted_list, target)\<close>.
  Python integers are unbounded, so indices are \<^typ>\<open>int\<close>; the elements are of any linearly
  ordered type. Reading a list by index can raise, so the read is a function into a sum type.
\<close>

subsection \<open>Data\<close>

datatype py_error = IndexError

text \<open>
  \<^verbatim>\<open>sorted_list[mid]\<close> on a Python list: a negative index counts from the end, and
  an index outside \<^verbatim>\<open>-len .. len-1\<close> raises IndexError.
\<close>

definition getitem :: "'a list \<Rightarrow> int \<Rightarrow> py_error + 'a" where
  "getitem l i =
     (let n = int (length l);
          k = (if i < 0 then i + n else i)
      in if 0 \<le> k \<and> k < n then Inr (l ! nat k) else Inl IndexError)"

text \<open>
  The variables of one call: the two parameters and the two bounds the loop assigns.
  \<^verbatim>\<open>mid\<close> and \<^verbatim>\<open>mid_value\<close> are recomputed in every iteration and live inside the body.
\<close>

record 'a frame =
  sorted_list :: "'a list"
  target :: 'a
  low :: int
  high :: int

text \<open>How one run of the loop body ends: go round again, return a value, or raise.\<close>

datatype 'a flow = Continue "'a frame" | Return int | Raise py_error

subsection \<open>The code\<close>

text \<open>
  Lines 9 to 17, the body of the while loop:
  \<^verbatim>\<open>
      mid = (low + high) // 2
      mid_value = sorted_list[mid]
      if mid_value == target:   return mid
      elif mid_value < target:  low = mid + 1
      else:                     high = mid - 1
  \<close>
  Python's \<^verbatim>\<open>//\<close> rounds towards minus infinity, as \<open>div\<close> on \<^typ>\<open>int\<close> does.
\<close>

definition body :: "('a::linorder) frame \<Rightarrow> 'a flow" where
  "body s =
     (let mid = (low s + high s) div 2 in
      case getitem (sorted_list s) mid of
        Inl e \<Rightarrow> Raise e
      | Inr mid_value \<Rightarrow>
          if mid_value = target s then Return mid
          else if mid_value < target s then Continue (s\<lparr>low := mid + 1\<rparr>)
          else Continue (s\<lparr>high := mid - 1\<rparr>))"

text \<open>
  Lines 8 and 19: the loop and the final \<^verbatim>\<open>return -1\<close>. The result is the frame at
  the moment the call ends together with the returned value or the exception raised.
\<close>

function while_loop :: "('a::linorder) frame \<Rightarrow> 'a frame \<times> (py_error + int)" where
  "while_loop s =
     (if low s \<le> high s then
        (case body s of
           Continue s' \<Rightarrow> while_loop s'
         | Return i \<Rightarrow> (s, Inr i)
         | Raise e \<Rightarrow> (s, Inl e))
      else (s, Inr (- 1)))"
  by pat_completeness auto
termination
  by (relation "measure (\<lambda>s. nat (high s - low s + 1))")
     (auto simp: body_def Let_def split: sum.splits if_splits)

declare while_loop.simps [simp del]

text \<open>Lines 5 and 6: \<^verbatim>\<open>low = 0\<close> and \<^verbatim>\<open>high = len(sorted_list) - 1\<close>.\<close>

definition entry :: "'a list \<Rightarrow> 'a \<Rightarrow> 'a frame" where
  "entry l t = \<lparr>sorted_list = l, target = t, low = 0, high = int (length l) - 1\<rparr>"

definition binary_search_iterative ::
  "('a::linorder) list \<Rightarrow> 'a \<Rightarrow> 'a frame \<times> (py_error + int)" where
  "binary_search_iterative l t = while_loop (entry l t)"

text \<open>What the caller receives.\<close>

definition result :: "('a::linorder) list \<Rightarrow> 'a \<Rightarrow> py_error + int" where
  "result l t = snd (binary_search_iterative l t)"

text \<open>
  Calls made one after another on the same list object and target, as in
  \<^verbatim>\<open>
      r1 = Search.binary_search_iterative(xs, t)
      r2 = Search.binary_search_iterative(xs, t)
  \<close>
  The method assigns no global, no attribute and no default argument, and its locals are
  gone when it returns; what a later call can see of an earlier one is the two objects the
  caller still holds, in the state in which the earlier call left them. So each call starts
  from the list and the target of the frame in which the previous call ended. The list of
  the outcomes is returned, first call first.
\<close>

fun calls :: "nat \<Rightarrow> ('a::linorder) list \<Rightarrow> 'a \<Rightarrow> (py_error + int) list" where
  "calls 0 l t = []"
| "calls (Suc n) l t =
     (let (s, r) = binary_search_iterative l t
      in r # calls n (sorted_list s) (target s))"

text \<open>
  The frames with which the loop body is entered, in order, following the same loop.
  Its length is the number of iterations; each entry is one evaluation of
  \<^verbatim>\<open>sorted_list[mid]\<close> and at most two comparisons of elements.
\<close>

function visits :: "('a::linorder) frame \<Rightarrow> 'a frame list" where
  "visits s =
     (if low s \<le> high s then
        s # (case body s of
               Continue s' \<Rightarrow> visits s'
             | Return i \<Rightarrow> []
             | Raise e \<Rightarrow> [])
      else [])"
  by pat_completeness auto
termination
  by (relation "measure (\<lambda>s. nat (high s - low s + 1))")
     (auto simp: body_def Let_def split: sum.splits if_splits)

declare visits.simps [simp del]

definition iterations :: "('a::linorder) list \<Rightarrow> 'a \<Rightarrow> nat" where
  "iterations l t = length (visits (entry l t))"

text \<open>The index that the body entered with frame \<open>s\<close> reads (line 9).\<close>

definition mid_of :: "'a frame \<Rightarrow> int" where
  "mid_of s = (low s + high s) div 2"

text \<open>The loop invariant on the bounds: every index from \<open>low\<close> to \<open>high\<close> is inside the list.\<close>

definition bounds_ok :: "'a frame \<Rightarrow> bool" where
  "bounds_ok s \<longleftrightarrow> 0 \<le> low s \<and> high s < int (length (sorted_list s))"

subsection \<open>The algorithm as the specification words it\<close>

text \<open>
  Written from the specification's description, not from the code, to be compared with
  \<open>binary_search_iterative\<close>. The specification's state machine has a state \<^emph>\<open>searching\<close>
  that carries the two bounds and two terminal states, \<^emph>\<open>found\<close> with the index and
  \<^emph>\<open>not found\<close>. One step while searching: if \<open>low \<le> high\<close>, take \<open>mid\<close> as the floor of
  \<open>(low + high) / 2\<close> and compare the element at \<open>mid\<close> with the target: equal ends in found,
  smaller sets \<open>low = mid + 1\<close>, greater sets \<open>high = mid - 1\<close>; if \<open>low > high\<close> the search ends
  in not found. Terminal states have no transitions. The search starts with \<open>low = 0\<close> and
  \<open>high = length - 1\<close> and runs until a terminal state is reached. The element at \<open>mid\<close> is
  \<open>S ! nat mid\<close>, which means something only for \<open>0 \<le> mid < length S\<close>; the specification
  says nothing about any other index.
\<close>

datatype spec_state = Searching int int | Found int | Not_Found

fun spec_step :: "('a::linorder) list \<Rightarrow> 'a \<Rightarrow> spec_state \<Rightarrow> spec_state" where
  "spec_step S t (Searching lo hi) =
     (if lo \<le> hi then
        (let mid = \<lfloor>real_of_int (lo + hi) / 2\<rfloor>;
             element = S ! nat mid
         in if element = t then Found mid
            else if element < t then Searching (mid + 1) hi
            else Searching lo (mid - 1))
      else Not_Found)"
| "spec_step S t (Found i) = Found i"
| "spec_step S t Not_Found = Not_Found"

fun searching :: "spec_state \<Rightarrow> bool" where
  "searching (Searching lo hi) = True"
| "searching (Found i) = False"
| "searching Not_Found = False"

definition spec_binary_search :: "('a::linorder) list \<Rightarrow> 'a \<Rightarrow> spec_state option" where
  "spec_binary_search S t =
     while_option searching (spec_step S t) (Searching 0 (int (length S) - 1))"

text \<open>
  How a value returned by the code reads as a terminal state: the code's \<^verbatim>\<open>-1\<close> is the
  "not found" signal, any other value is a found index.
\<close>

fun signal :: "int \<Rightarrow> spec_state" where
  "signal r = (if r = - 1 then Not_Found else Found r)"

section \<open>Properties of the loop body\<close>

lemma getitem_in_range:
  "0 \<le> i \<Longrightarrow> i < int (length l) \<Longrightarrow> getitem l i = Inr (l ! nat i)"
  by (simp add: getitem_def)

lemma mid_bounds: "low s \<le> high s \<Longrightarrow> low s \<le> mid_of s \<and> mid_of s \<le> high s"
  by (simp add: mid_of_def) linarith

text \<open>With the bounds inside the list the read cannot raise, and the body is a three-way branch.\<close>

lemma body_cases:
  assumes "bounds_ok s" "low s \<le> high s"
  shows "body s =
     (if sorted_list s ! nat (mid_of s) = target s then Return (mid_of s)
      else if sorted_list s ! nat (mid_of s) < target s then Continue (s\<lparr>low := mid_of s + 1\<rparr>)
      else Continue (s\<lparr>high := mid_of s - 1\<rparr>))"
proof -
  from assms mid_bounds[of s] have "0 \<le> mid_of s" "mid_of s < int (length (sorted_list s))"
    by (auto simp: bounds_ok_def)
  then have "getitem (sorted_list s) (mid_of s) = Inr (sorted_list s ! nat (mid_of s))"
    by (rule getitem_in_range)
  then show ?thesis by (simp add: body_def mid_of_def Let_def)
qed

lemma body_Continue_frame:
  "body s = Continue s' \<Longrightarrow> sorted_list s' = sorted_list s \<and> target s' = target s"
  by (auto simp: body_def Let_def split: sum.splits if_splits)

lemma body_Continue_bounds_ok:
  "bounds_ok s \<Longrightarrow> low s \<le> high s \<Longrightarrow> body s = Continue s' \<Longrightarrow> bounds_ok s'"
  using mid_bounds[of s]
  by (auto simp: body_cases bounds_ok_def split: if_splits)

text \<open>The width of the interval is \<open>high - low + 1\<close>; a round that continues at least halves it.\<close>

lemma body_Continue_halves:
  "low s \<le> high s \<Longrightarrow> body s = Continue s' \<Longrightarrow>
     nat (high s' - low s' + 1) \<le> nat (high s - low s + 1) div 2"
  by (auto simp: body_def Let_def split: sum.splits if_splits)

lemma entry_bounds_ok: "bounds_ok (entry l t)"
  by (simp add: bounds_ok_def entry_def)

section \<open>Properties of the loop\<close>

text \<open>The loop assigns only the two bounds: the list and the target leave it as they entered.\<close>

lemma while_loop_frame:
  "sorted_list (fst (while_loop s)) = sorted_list s \<and> target (fst (while_loop s)) = target s"
proof (induction s rule: while_loop.induct)
  case (1 s)
  show ?case
  proof (cases "low s \<le> high s")
    case False
    then show ?thesis by (simp add: while_loop.simps[of s])
  next
    case True
    show ?thesis
    proof (cases "body s")
      case (Continue s')
      with True 1 body_Continue_frame[of s s'] show ?thesis
        by (simp add: while_loop.simps[of s])
    next
      case (Return i)
      with True show ?thesis by (simp add: while_loop.simps[of s])
    next
      case (Raise e)
      with True show ?thesis by (simp add: while_loop.simps[of s])
    qed
  qed
qed

text \<open>From bounds inside the list the loop ends with a return, never with an exception.\<close>

lemma while_loop_returns:
  "bounds_ok s \<Longrightarrow> \<exists>r. snd (while_loop s) = Inr r"
proof (induction s rule: while_loop.induct)
  case (1 s)
  show ?case
  proof (cases "low s \<le> high s")
    case False
    then show ?thesis by (simp add: while_loop.simps[of s])
  next
    case True
    show ?thesis
    proof (cases "body s")
      case (Continue s')
      with True 1 body_Continue_bounds_ok[of s s'] show ?thesis
        by (simp add: while_loop.simps[of s])
    next
      case (Return i)
      with True show ?thesis by (simp add: while_loop.simps[of s])
    next
      case (Raise e)
      with True 1(2) show ?thesis by (simp add: body_cases split: if_splits)
    qed
  qed
qed

text \<open>A returned value other than \<open>-1\<close> is an index between the bounds that holds the target.\<close>

lemma while_loop_sound:
  "bounds_ok s \<Longrightarrow> snd (while_loop s) = Inr r \<Longrightarrow>
     r = - 1 \<or> (low s \<le> r \<and> r \<le> high s \<and> sorted_list s ! nat r = target s)"
proof (induction s rule: while_loop.induct)
  case (1 s)
  show ?case
  proof (cases "low s \<le> high s")
    case False
    with 1(3) show ?thesis by (simp add: while_loop.simps[of s])
  next
    case True
    note mb = mid_bounds[OF True]
    show ?thesis
    proof (cases "body s")
      case (Continue s')
      from True Continue 1(2) have ok: "bounds_ok s'" by (blast intro: body_Continue_bounds_ok)
      from True Continue 1(3) have r: "snd (while_loop s') = Inr r"
        by (simp add: while_loop.simps[of s])
      from 1(1)[OF True Continue ok r]
      have "r = - 1 \<or> (low s' \<le> r \<and> r \<le> high s' \<and> sorted_list s' ! nat r = target s')" .
      moreover from Continue True 1(2) mb have "low s \<le> low s'" "high s' \<le> high s"
        "sorted_list s' = sorted_list s" "target s' = target s"
        by (auto simp: body_cases split: if_splits)
      ultimately show ?thesis by auto
    next
      case (Return i)
      with True 1(3) have "r = i" by (simp add: while_loop.simps[of s])
      with Return True 1(2) mb show ?thesis
        by (auto simp: body_cases split: if_splits)
    next
      case (Raise e)
      with True 1(2) show ?thesis by (simp add: body_cases split: if_splits)
    qed
  qed
qed

text \<open>On a sorted list, a final \<open>-1\<close> means that no index between the bounds holds the target.\<close>

lemma while_loop_complete:
  "bounds_ok s \<Longrightarrow> sorted (sorted_list s) \<Longrightarrow> snd (while_loop s) = Inr (- 1) \<Longrightarrow>
     low s \<le> k \<Longrightarrow> k \<le> high s \<Longrightarrow> sorted_list s ! nat k \<noteq> target s"
proof (induction s rule: while_loop.induct)
  case (1 s)
  from 1(5,6) have True: "low s \<le> high s" by simp
  note mb = mid_bounds[OF True]
  from 1(2) have lo: "0 \<le> low s" and hi: "high s < int (length (sorted_list s))"
    by (simp_all add: bounds_ok_def)
  let ?l = "sorted_list s"
  let ?m = "mid_of s"
  show ?case
  proof (cases "body s")
    case (Continue s')
    from True Continue 1(2) have ok: "bounds_ok s'" by (blast intro: body_Continue_bounds_ok)
    from body_Continue_frame[OF Continue] have fr: "sorted_list s' = ?l" "target s' = target s"
      by simp_all
    from True Continue 1(4) have r: "snd (while_loop s') = Inr (- 1)"
      by (simp add: while_loop.simps[of s])
    from 1(3) fr have srt: "sorted (sorted_list s')" by simp
    note IH = 1(1)[OF True Continue ok srt r]
    show ?thesis
    proof (cases "?l ! nat ?m < target s")
      case lt: True
      with Continue True 1(2) have s': "s' = s\<lparr>low := ?m + 1\<rparr>"
        by (auto simp: body_cases split: if_splits)
      show ?thesis
      proof (cases "k \<le> ?m")
        case True
        with lo 1(5) mb hi have "nat k \<le> nat ?m" "nat ?m < length ?l" by auto
        with 1(3) have "?l ! nat k \<le> ?l ! nat ?m" by (simp add: sorted_nth_mono)
        with lt show ?thesis by auto
      next
        case False
        with IH s' 1(6) fr show ?thesis by simp
      qed
    next
      case nlt: False
      with Continue True 1(2) have s': "s' = s\<lparr>high := ?m - 1\<rparr>" and ne: "?l ! nat ?m \<noteq> target s"
        by (auto simp: body_cases split: if_splits)
      from nlt ne have gt: "target s < ?l ! nat ?m" by auto
      show ?thesis
      proof (cases "?m \<le> k")
        case True
        with lo 1(6) mb hi have "nat ?m \<le> nat k" "nat k < length ?l" by auto
        with 1(3) have "?l ! nat ?m \<le> ?l ! nat k" by (simp add: sorted_nth_mono)
        with gt show ?thesis by auto
      next
        case False
        with IH s' 1(5) fr show ?thesis by simp
      qed
    qed
  next
    case (Return i)
    with True 1(4) have "i = - 1" by (simp add: while_loop.simps[of s])
    with Return True 1(2) mb lo show ?thesis
      by (auto simp: body_cases split: if_splits)
  next
    case (Raise e)
    with True 1(2) show ?thesis by (simp add: body_cases split: if_splits)
  qed
qed

text \<open>The number of rounds is bounded by the bit length of the interval's width.\<close>

lemma visits_length_le:
  "length (visits s) \<le> floorlog 2 (nat (high s - low s + 1))"
proof (induction s rule: visits.induct)
  case (1 s)
  show ?case
  proof (cases "low s \<le> high s")
    case False
    then show ?thesis by (simp add: visits.simps[of s])
  next
    case True
    let ?w = "nat (high s - low s + 1)"
    from True have pos: "0 < ?w" by simp
    then have fl: "floorlog 2 ?w = floorlog 2 (?w div 2) + 1"
      by (subst compute_floorlog) simp
    show ?thesis
    proof (cases "body s")
      case (Continue s')
      from body_Continue_halves[OF True Continue]
      have "floorlog 2 (nat (high s' - low s' + 1)) \<le> floorlog 2 (?w div 2)"
        by (rule floorlog_mono)
      with 1[OF True Continue] have "length (visits s') \<le> floorlog 2 (?w div 2)" by simp
      with True Continue fl show ?thesis by (simp add: visits.simps[of s])
    next
      case (Return i)
      with True fl show ?thesis by (simp add: visits.simps[of s])
    next
      case (Raise e)
      with True fl show ?thesis by (simp add: visits.simps[of s])
    qed
  qed
qed

text \<open>Every round is entered with bounds inside the list, and with the list and target of the call.\<close>

lemma visits_invariant:
  "bounds_ok s \<Longrightarrow> v \<in> set (visits s) \<Longrightarrow>
     bounds_ok v \<and> low v \<le> high v \<and> sorted_list v = sorted_list s \<and> target v = target s"
proof (induction s rule: visits.induct)
  case (1 s)
  show ?case
  proof (cases "low s \<le> high s")
    case False
    with 1(3) show ?thesis by (simp add: visits.simps[of s])
  next
    case True
    show ?thesis
    proof (cases "body s")
      case (Continue s')
      from True Continue 1(2) have ok: "bounds_ok s'" by (blast intro: body_Continue_bounds_ok)
      from True Continue 1(3) have "v = s \<or> v \<in> set (visits s')"
        by (simp add: visits.simps[of s])
      then show ?thesis
      proof
        assume "v = s" with True 1(2) show ?thesis by simp
      next
        assume "v \<in> set (visits s')"
        from 1(1)[OF True Continue ok this] body_Continue_frame[OF Continue]
        show ?thesis by simp
      qed
    next
      case (Return i)
      with True 1(2,3) show ?thesis by (simp add: visits.simps[of s])
    next
      case (Raise e)
      with True 1(2,3) show ?thesis by (simp add: visits.simps[of s])
    qed
  qed
qed

section \<open>The loop against the specification's state machine\<close>

lemma floor_half: "\<lfloor>real_of_int x / 2\<rfloor> = x div 2"
  by (simp add: floor_divide_of_int_eq[of x 2, simplified])

lemma floor_half_sum: "\<lfloor>(real_of_int a + real_of_int b) / 2\<rfloor> = (a + b) div 2"
  using floor_half[of "a + b"] by simp

text \<open>One round of the body is one step of the state machine.\<close>

lemma spec_step_body:
  assumes "bounds_ok s" "low s \<le> high s"
  shows "spec_step (sorted_list s) (target s) (Searching (low s) (high s)) =
     (case body s of
        Continue s' \<Rightarrow> Searching (low s') (high s')
      | Return i \<Rightarrow> Found i
      | Raise e \<Rightarrow> Not_Found)"
  using assms by (simp add: body_cases floor_half_sum mid_of_def Let_def)

text \<open>Hence the two runs end alike.\<close>

lemma spec_simulation:
  "bounds_ok s \<Longrightarrow>
     \<exists>r. snd (while_loop s) = Inr r \<and>
       while_option searching (spec_step (sorted_list s) (target s)) (Searching (low s) (high s))
         = Some (signal r)"
proof (induction s rule: while_loop.induct)
  case (1 s)
  let ?c = "spec_step (sorted_list s) (target s)"
  have stop: "while_option searching ?c st = Some st" if "\<not> searching st" for st
    using that by (subst while_option_unfold) simp
  show ?case
  proof (cases "low s \<le> high s")
    case False
    then have "?c (Searching (low s) (high s)) = Not_Found" by simp
    then have "while_option searching ?c (Searching (low s) (high s)) = Some Not_Found"
      by (subst while_option_unfold) (simp add: stop)
    with False show ?thesis by (simp add: while_loop.simps[of s])
  next
    case True
    note mb = mid_bounds[OF True]
    note sb = spec_step_body[OF 1(2) True]
    show ?thesis
    proof (cases "body s")
      case (Continue s')
      from True Continue 1(2) have ok: "bounds_ok s'" by (blast intro: body_Continue_bounds_ok)
      from 1(1)[OF True Continue ok] body_Continue_frame[OF Continue]
      obtain r where r: "snd (while_loop s') = Inr r"
        "while_option searching ?c (Searching (low s') (high s')) = Some (signal r)"
        by auto
      from sb Continue have "?c (Searching (low s) (high s)) = Searching (low s') (high s')"
        by simp
      then have "while_option searching ?c (Searching (low s) (high s)) = Some (signal r)"
        using r(2) by (subst while_option_unfold) simp
      with True Continue r(1) show ?thesis by (simp add: while_loop.simps[of s])
    next
      case (Return i)
      with True 1(2) mb have i: "0 \<le> i"
        by (auto simp: body_cases bounds_ok_def split: if_splits)
      from sb Return have "?c (Searching (low s) (high s)) = Found i" by simp
      then have "while_option searching ?c (Searching (low s) (high s)) = Some (Found i)"
        by (subst while_option_unfold) (simp add: stop)
      with True Return i show ?thesis by (simp add: while_loop.simps[of s])
    next
      case (Raise e)
      with True 1(2) show ?thesis by (simp add: body_cases split: if_splits)
    qed
  qed
qed

section \<open>Properties of a call\<close>

lemma result_returns: "\<exists>r. result l t = Inr r"
  using while_loop_returns[OF entry_bounds_ok, of l t]
  by (simp add: result_def binary_search_iterative_def)

lemma result_sound:
  assumes "result l t = Inr r"
  shows "r = - 1 \<or> (0 \<le> r \<and> r \<le> int (length l) - 1 \<and> l ! nat r = t)"
  using while_loop_sound[OF entry_bounds_ok, of l t r] assms
  by (simp add: result_def binary_search_iterative_def entry_def)

lemma result_complete:
  assumes "sorted l" "result l t = Inr (- 1)" "k < length l"
  shows "l ! k \<noteq> t"
  using while_loop_complete[OF entry_bounds_ok, of l t "int k"] assms
  by (simp add: result_def binary_search_iterative_def entry_def)

lemma iterations_le_floorlog: "iterations l t \<le> floorlog 2 (length l)"
  using visits_length_le[of "entry l t"] by (simp add: iterations_def entry_def)

section \<open>The claims\<close>

text \<open>
  Claim C1. For every list \<open>l\<close> sorted in non-decreasing order and every index \<open>i\<close> with
  \<open>0 \<le> i < length l\<close>, searching for \<open>l ! i\<close> returns an index \<open>j\<close> inside the list with
  \<open>l ! j = l ! i\<close>; in particular it does not return the "not found" value \<open>-1\<close> and does
  not raise.
\<close>

theorem binary_search_finds_present:
  "sorted l \<Longrightarrow> i < length l \<Longrightarrow>
     \<exists>j. result l (l ! i) = Inr j \<and> 0 \<le> j \<and> j < int (length l) \<and> l ! nat j = l ! i"
proof -
  assume srt: "sorted l" and i: "i < length l"
  from result_returns obtain r where r: "result l (l ! i) = Inr r" by blast
  from result_complete[OF srt _ i, of "l ! i"] r have "r \<noteq> - 1" by auto
  with result_sound[OF r] r show ?thesis by auto
qed

theorem binary_search_finds_present_witness:
  "sorted [1, 2, 2, 2, 3 :: int] \<and> 3 < length [1, 2, 2, 2, 3 :: int] \<and>
   (\<exists>j. result [1, 2, 2, 2, 3 :: int] ([1, 2, 2, 2, 3] ! 3) = Inr j \<and> 0 \<le> j \<and>
        j < int (length [1, 2, 2, 2, 3 :: int]) \<and>
        [1, 2, 2, 2, 3 :: int] ! nat j = [1, 2, 2, 2, 3] ! 3)"
proof -
  have s: "sorted [1, 2, 2, 2, 3 :: int]" by simp
  have i: "3 < length [1, 2, 2, 2, 3 :: int]" by simp
  from s i binary_search_finds_present[OF s i] show ?thesis by blast
qed

text \<open>
  Claim C2. For every sorted list \<open>l\<close> and every value \<open>v\<close> that no element of \<open>l\<close> equals,
  the search returns the "not found" value \<open>-1\<close>.
\<close>

theorem binary_search_absent_not_found:
  "sorted l \<Longrightarrow> v \<notin> set l \<Longrightarrow> result l v = Inr (- 1)"
proof -
  assume v: "v \<notin> set l"
  from result_returns obtain r where r: "result l v = Inr r" by blast
  have "r = - 1"
  proof (rule ccontr)
    assume "r \<noteq> - 1"
    with result_sound[OF r] have "0 \<le> r" "r \<le> int (length l) - 1" "l ! nat r = v" by auto
    then have "v \<in> set l" by (metis nth_mem nat_less_iff zle_diff1_eq)
    with v show False by simp
  qed
  with r show ?thesis by simp
qed

theorem binary_search_absent_not_found_witness:
  "sorted [1, 3, 5, 7, 9, 11 :: int] \<and> 4 \<notin> set [1, 3, 5, 7, 9, 11 :: int] \<and>
   result [1, 3, 5, 7, 9, 11 :: int] 4 = Inr (- 1)"
proof -
  have s: "sorted [1, 3, 5, 7, 9, 11 :: int]" by simp
  have n: "4 \<notin> set [1, 3, 5, 7, 9, 11 :: int]" by simp
  from s n binary_search_absent_not_found[OF s n] show ?thesis by blast
qed

text \<open>
  Claim C3. For every target \<open>v\<close>, the search in the empty list returns the "not found"
  value \<open>-1\<close>.
\<close>

theorem binary_search_empty: "result [] v = Inr (- 1)"
  by (simp add: result_def binary_search_iterative_def entry_def while_loop.simps)

text \<open>
  Claim C4. For every sorted list \<open>l\<close> and every target \<open>t\<close>, the result is either the
  "not found" value \<open>-1\<close> or an index \<open>j\<close> with \<open>0 \<le> j \<le> length l - 1\<close> and \<open>l ! j = t\<close>;
  so with several elements equal to the target, whichever index comes back holds the target.
\<close>

theorem binary_search_result_shape:
  "sorted l \<Longrightarrow>
     result l t = Inr (- 1) \<or>
     (\<exists>j. result l t = Inr j \<and> 0 \<le> j \<and> j \<le> int (length l) - 1 \<and> l ! nat j = t)"
  using result_returns[of l t] result_sound[of l t] by auto

theorem binary_search_result_shape_witness:
  "sorted [1, 2, 2, 2, 3 :: int] \<and>
   (result [1, 2, 2, 2, 3 :: int] 2 = Inr (- 1) \<or>
    (\<exists>j. result [1, 2, 2, 2, 3 :: int] 2 = Inr j \<and> 0 \<le> j \<and>
         j \<le> int (length [1, 2, 2, 2, 3 :: int]) - 1 \<and> [1, 2, 2, 2, 3 :: int] ! nat j = 2))"
proof -
  have s: "sorted [1, 2, 2, 2, 3 :: int]" by simp
  from s binary_search_result_shape[OF s, of 2] show ?thesis by blast
qed

text \<open>
  Claim C5. For every list the call ends with a return, and the loop body runs at most
  \<open>floor (log2 n) + 1\<close> times for a list of length \<open>n\<close>, because every round that does not
  end the call leaves an interval \<open>[low, high]\<close> strictly smaller than, and at most half as
  wide as, the one it started from.
\<close>

theorem binary_search_logarithmic:
  "(\<exists>r. result (l :: ('a::linorder) list) t = Inr r) \<and>
   iterations l t \<le> nat \<lfloor>log 2 (real (length l))\<rfloor> + 1 \<and>
   (\<forall>s s' :: 'a frame. low s \<le> high s \<and> body s = Continue s' \<longrightarrow>
      nat (high s' - low s' + 1) \<le> nat (high s - low s + 1) div 2 \<and>
      nat (high s' - low s' + 1) < nat (high s - low s + 1))"
proof (intro conjI impI allI)
  show "\<exists>r. result l t = Inr r" by (rule result_returns)
next
  show "iterations l t \<le> nat \<lfloor>log 2 (real (length l))\<rfloor> + 1"
  proof (cases "0 < length l")
    case True
    with iterations_le_floorlog[of l t] show ?thesis by (simp add: floorlog_def)
  next
    case False
    with iterations_le_floorlog[of l t] show ?thesis by (simp add: floorlog_def)
  qed
next
  fix s s' :: "'a frame"
  assume a: "low s \<le> high s \<and> body s = Continue s'"
  then have h: "nat (high s' - low s' + 1) \<le> nat (high s - low s + 1) div 2"
    by (blast intro: body_Continue_halves)
  from h show "nat (high s' - low s' + 1) \<le> nat (high s - low s + 1) div 2" .
  from a have "0 < nat (high s - low s + 1)" by simp
  with h show "nat (high s' - low s' + 1) < nat (high s - low s + 1)" by linarith
qed

theorem binary_search_logarithmic_witness:
  "iterations [1, 3, 5, 7, 9, 11 :: int] 12 = 3 \<and>
   iterations [1, 3, 5, 7, 9, 11 :: int] 12
     \<le> nat \<lfloor>log 2 (real (length [1, 3, 5, 7, 9, 11 :: int]))\<rfloor> + 1 \<and>
   low (entry [1, 3, 5, 7, 9, 11 :: int] 12) \<le> high (entry [1, 3, 5, 7, 9, 11 :: int] 12) \<and>
   body (entry [1, 3, 5, 7, 9, 11 :: int] 12)
     = Continue ((entry [1, 3, 5, 7, 9, 11 :: int] 12)\<lparr>low := 3\<rparr>) \<and>
   nat (high ((entry [1, 3, 5, 7, 9, 11 :: int] 12)\<lparr>low := 3\<rparr>)
          - low ((entry [1, 3, 5, 7, 9, 11 :: int] 12)\<lparr>low := 3\<rparr>) + 1)
     \<le> nat (high (entry [1, 3, 5, 7, 9, 11 :: int] 12)
          - low (entry [1, 3, 5, 7, 9, 11 :: int] 12) + 1) div 2"
proof -
  let ?e = "entry [1, 3, 5, 7, 9, 11 :: int] 12"
  have i: "iterations [1, 3, 5, 7, 9, 11 :: int] 12 = 3" by code_simp
  have e: "low ?e \<le> high ?e" by (simp add: entry_def)
  have b: "body ?e = Continue (?e\<lparr>low := 3\<rparr>)"
    by (simp add: body_def entry_def getitem_def)
  note inst = binary_search_logarithmic[of "[1, 3, 5, 7, 9, 11 :: int]" 12]
  from inst have "iterations [1, 3, 5, 7, 9, 11 :: int] 12
     \<le> nat \<lfloor>log 2 (real (length [1, 3, 5, 7, 9, 11 :: int]))\<rfloor> + 1" by blast
  moreover from inst e b
  have "nat (high (?e\<lparr>low := 3\<rparr>) - low (?e\<lparr>low := 3\<rparr>) + 1)
     \<le> nat (high ?e - low ?e + 1) div 2" by blast
  ultimately show ?thesis using i e b by blast
qed

text \<open>
  Claim C6. The code is the algorithm of the specification: bounds \<open>low = 0\<close> and
  \<open>high = length - 1\<close>; while \<open>low \<le> high\<close>, \<open>mid\<close> is the floor of \<open>(low + high) / 2\<close>, the
  search returns \<open>mid\<close> when the element there equals the target, continues with
  \<open>low = mid + 1\<close> when it is smaller and with \<open>high = mid - 1\<close> when it is greater, and returns
  "not found" when \<open>low > high\<close>. The state machine written from these words reaches a
  terminal state, the call returns, and the two outcomes are the same.
\<close>

theorem binary_search_refines_spec:
  "\<exists>r. result l t = Inr r \<and> spec_binary_search l t = Some (signal r)"
  using spec_simulation[OF entry_bounds_ok, of l t]
  by (simp add: result_def binary_search_iterative_def spec_binary_search_def entry_def)

text \<open>
  Claim C7. The search is deterministic and keeps no state between calls: however many calls
  are made one after another with the same list and the same target, every one of them
  returns what a single call returns; in particular the two outcomes of a pair of calls are
  equal. This needs that a call leaves the list and the target as it found them: a call that
  changed the list would hand a different list to the next one.
\<close>

theorem binary_search_repeatable:
  "calls n l t = replicate n (result l t) \<and>
   calls 2 l t = [result l t, result l t]"
proof -
  have kept: "sorted_list (fst (binary_search_iterative l t)) = l \<and>
              target (fst (binary_search_iterative l t)) = t"
    using while_loop_frame[of "entry l t"]
    by (simp add: binary_search_iterative_def entry_def)
  have every: "calls k l t = replicate k (result l t)" for k
  proof (induction k)
    case 0
    show ?case by simp
  next
    case (Suc k)
    with kept show ?case
      by (simp add: result_def split_beta Let_def)
  qed
  from every[of n] every[of 2] show ?thesis by (simp add: numeral_2_eq_2)
qed

text \<open>
  Claim C8. The search does not change its input: in the frame in which the call ends, the
  list is the list that was passed in, element for element, and so is the target.
\<close>

theorem binary_search_no_mutation:
  "sorted_list (fst (binary_search_iterative l t)) = l \<and>
   target (fst (binary_search_iterative l t)) = t"
  using while_loop_frame[of "entry l t"]
  by (simp add: binary_search_iterative_def entry_def)

text \<open>
  Claim C9. On \<open>[1, 3, 5, 7, 9, 11]\<close> the search for 7 returns index 3 and the search for 4
  returns "not found"; on the empty list the search for 0 returns "not found".
\<close>

theorem binary_search_examples:
  "result [1, 3, 5, 7, 9, 11 :: int] 7 = Inr 3 \<and>
   result [1, 3, 5, 7, 9, 11 :: int] 4 = Inr (- 1) \<and>
   result ([] :: int list) 0 = Inr (- 1)"
  by code_simp

text \<open>
  Claim C10. For every list, sorted or not, and every target: (a) every round of the loop is
  entered with \<open>0 \<le> low \<le> high \<le> length - 1\<close>, so the index \<open>mid\<close> it reads lies in
  \<open>0 .. length - 1\<close>, the read yields that element, and no IndexError is raised; (b) a result
  \<open>i \<ge> 0\<close> is an index of the list whose element equals the target.
\<close>

theorem binary_search_safe_unsorted:
  "(\<forall>v \<in> set (visits (entry l t)).
      sorted_list v = l \<and> 0 \<le> low v \<and> low v \<le> high v \<and> high v \<le> int (length l) - 1 \<and>
      0 \<le> mid_of v \<and> mid_of v \<le> int (length l) - 1 \<and>
      getitem l (mid_of v) = Inr (l ! nat (mid_of v))) \<and>
   result l t \<noteq> Inl IndexError \<and>
   (\<forall>i. result l t = Inr i \<and> 0 \<le> i \<longrightarrow> i \<le> int (length l) - 1 \<and> l ! nat i = t)"
proof (intro conjI ballI allI impI)
  fix v assume "v \<in> set (visits (entry l t))"
  from visits_invariant[OF entry_bounds_ok this]
  have v: "bounds_ok v" "low v \<le> high v" "sorted_list v = l" by (simp_all add: entry_def)
  from mid_bounds[OF v(2)] v(1,3)
  have m: "0 \<le> mid_of v" "mid_of v < int (length l)" by (auto simp: bounds_ok_def)
  from v show "sorted_list v = l" "low v \<le> high v" "0 \<le> low v" "high v \<le> int (length l) - 1"
    by (auto simp: bounds_ok_def)
  from m show "0 \<le> mid_of v" "mid_of v \<le> int (length l) - 1" by auto
  from m show "getitem l (mid_of v) = Inr (l ! nat (mid_of v))" by (rule getitem_in_range)
next
  from result_returns[of l t] show "result l t \<noteq> Inl IndexError" by auto
next
  fix i assume "result l t = Inr i \<and> 0 \<le> i"
  with result_sound[of l t i] show "i \<le> int (length l) - 1" "l ! nat i = t" by auto
qed

theorem binary_search_safe_unsorted_witness:
  "\<not> sorted [5, 1, 5, 3 :: int] \<and>
   entry [5, 1, 5, 3 :: int] 5 \<in> set (visits (entry [5, 1, 5, 3 :: int] 5)) \<and>
   mid_of (entry [5, 1, 5, 3 :: int] 5) = 1 \<and>
   getitem [5, 1, 5, 3 :: int] (mid_of (entry [5, 1, 5, 3 :: int] 5))
     = Inr ([5, 1, 5, 3 :: int] ! nat (mid_of (entry [5, 1, 5, 3 :: int] 5))) \<and>
   result [5, 1, 5, 3 :: int] 5 = Inr 2 \<and> (0::int) \<le> 2 \<and>
   [5, 1, 5, 3 :: int] ! nat 2 = 5"
proof -
  have u: "\<not> sorted [5, 1, 5, 3 :: int]" by simp
  have a: "entry [5, 1, 5, 3 :: int] 5 \<in> set (visits (entry [5, 1, 5, 3 :: int] 5))"
    by (subst visits.simps) (simp add: entry_def)
  have r: "result [5, 1, 5, 3 :: int] 5 = Inr 2" by code_simp
  have m: "mid_of (entry [5, 1, 5, 3 :: int] 5) = 1" by (simp add: mid_of_def entry_def)
  from binary_search_safe_unsorted[of "[5, 1, 5, 3 :: int]" 5] u a r m show ?thesis by auto
qed

end
